theory Spec2Isabelle
  imports Complex_Main
begin

section \<open>Project Euler 2: the Fibonacci analysis, as the module computes it\<close>

text \<open>
  Python's integers are unbounded, so they are \<open>int\<close>. \<open>a % 2\<close> and \<open>a // m\<close> round
  towards minus infinity, as \<open>mod\<close> and \<open>div\<close> on \<open>int\<close> do. A \<open>while\<close> loop whose exit
  depends on its variables is a \<^theory_text>\<open>partial_function\<close> into \<open>option\<close>: \<open>None\<close> is the
  run that never leaves the loop.
\<close>

subsection \<open>Data structures\<close>

text \<open>The member \<open>ALL\<close> is written \<open>ALL'\<close>: \<open>ALL\<close> is a reserved word of the logic's syntax.\<close>

datatype FibonacciFilter = ALL' | EVEN | ODD

text \<open>
  \<open>solve\<close> compares its argument with the three members and raises on anything else;
  Python does not enforce the annotation, so the argument is either a member of the
  enumeration or some other value.
\<close>

datatype filter_arg = Member FibonacciFilter | NotAMember

datatype error = ValueError | ZeroDivisionError

record FibonacciResult =
  filter_type :: FibonacciFilter
  sum_value :: int
  sequence :: "int list"
  count :: int
  glb :: int
  lub :: int
  limit :: int
  computation_time :: real

text \<open>
  \<open>time.perf_counter()\<close> reads the environment. The clock is the function from the
  number of reads made so far to the value the next read returns; the state threaded
  through the calls is that number. The difference of two readings is taken in the
  reals.
\<close>

type_synonym clock = "nat \<Rightarrow> real"

definition perf_counter :: "clock \<Rightarrow> nat \<Rightarrow> real \<times> nat" where
  "perf_counter clk t = (clk t, Suc t)"

subsection \<open>Algorithm 1: all Fibonacci numbers\<close>

text \<open>The loop \<open>while a <= limit: sequence.append(a); total += a; a, b = b, a + b\<close>.\<close>

partial_function (option) fibonacci_all_loop ::
  "int \<Rightarrow> int list \<Rightarrow> int \<Rightarrow> int \<Rightarrow> int \<Rightarrow> (int list \<times> int \<times> int \<times> int) option" where
  "fibonacci_all_loop lmt sq tot a b =
     (if a \<le> lmt then fibonacci_all_loop lmt (sq @ [a]) (tot + a) b (a + b)
      else Some (sq, tot, a, b))"

definition fibonacci_all :: "clock \<Rightarrow> int \<Rightarrow> nat \<Rightarrow> (FibonacciResult \<times> nat) option" where
  "fibonacci_all clk lmt t0 =
     (case perf_counter clk t0 of (start_time, t1) \<Rightarrow>
      (case fibonacci_all_loop lmt [] 0 1 2 of
         None \<Rightarrow> None
       | Some (sq, tot, a, b) \<Rightarrow>
           (case perf_counter clk t1 of (end_time, t2) \<Rightarrow>
              Some (\<lparr>filter_type = ALL', sum_value = tot, sequence = sq,
                      count = int (length sq),
                      glb = (if sq \<noteq> [] then last sq else 0),
                      lub = a, limit = lmt,
                      computation_time = end_time - start_time\<rparr>, t2))))"

subsection \<open>Algorithm 2: even Fibonacci numbers\<close>

text \<open>The loop of the direct recurrence: \<open>a, b = b, 4*b + a\<close>.\<close>

partial_function (option) fibonacci_even_optimized_loop ::
  "int \<Rightarrow> int list \<Rightarrow> int \<Rightarrow> int \<Rightarrow> int \<Rightarrow> (int list \<times> int \<times> int \<times> int) option" where
  "fibonacci_even_optimized_loop lmt sq tot a b =
     (if a \<le> lmt then fibonacci_even_optimized_loop lmt (sq @ [a]) (tot + a) b (4 * b + a)
      else Some (sq, tot, a, b))"

definition fibonacci_even_optimized ::
  "clock \<Rightarrow> int \<Rightarrow> nat \<Rightarrow> (FibonacciResult \<times> nat) option" where
  "fibonacci_even_optimized clk lmt t0 =
     (case perf_counter clk t0 of (start_time, t1) \<Rightarrow>
      (case fibonacci_even_optimized_loop lmt [] 0 2 8 of
         None \<Rightarrow> None
       | Some (sq, tot, a, b) \<Rightarrow>
           (case perf_counter clk t1 of (end_time, t2) \<Rightarrow>
              Some (\<lparr>filter_type = EVEN, sum_value = tot, sequence = sq,
                      count = int (length sq),
                      glb = (if sq \<noteq> [] then last sq else 0),
                      lub = a, limit = lmt,
                      computation_time = end_time - start_time\<rparr>, t2))))"

text \<open>
  The filtered variant: the standard recurrence, keeping \<open>a\<close> when \<open>a % 2 == 0\<close>, and
  then a second loop \<open>while a % 2 == 1: a, b = b, a + b\<close> that looks for the next even
  term.
\<close>

partial_function (option) fibonacci_even_filtered_loop ::
  "int \<Rightarrow> int list \<Rightarrow> int \<Rightarrow> int \<Rightarrow> int \<Rightarrow> (int list \<times> int \<times> int \<times> int) option" where
  "fibonacci_even_filtered_loop lmt sq tot a b =
     (if a \<le> lmt then
        (if a mod 2 = 0 then fibonacci_even_filtered_loop lmt (sq @ [a]) (tot + a) b (a + b)
         else fibonacci_even_filtered_loop lmt sq tot b (a + b))
      else Some (sq, tot, a, b))"

partial_function (option) next_even_loop :: "int \<Rightarrow> int \<Rightarrow> (int \<times> int) option" where
  "next_even_loop a b = (if a mod 2 = 1 then next_even_loop b (a + b) else Some (a, b))"

definition fibonacci_even_filtered ::
  "clock \<Rightarrow> int \<Rightarrow> nat \<Rightarrow> (FibonacciResult \<times> nat) option" where
  "fibonacci_even_filtered clk lmt t0 =
     (case perf_counter clk t0 of (start_time, t1) \<Rightarrow>
      (case fibonacci_even_filtered_loop lmt [] 0 1 2 of
         None \<Rightarrow> None
       | Some (sq, tot, a, b) \<Rightarrow>
           (case next_even_loop a b of
              None \<Rightarrow> None
            | Some (a', b') \<Rightarrow>
                (case perf_counter clk t1 of (end_time, t2) \<Rightarrow>
                   Some (\<lparr>filter_type = EVEN, sum_value = tot, sequence = sq,
                           count = int (length sq),
                           glb = (if sq \<noteq> [] then last sq else 0),
                           lub = a', limit = lmt,
                           computation_time = end_time - start_time\<rparr>, t2)))))"

subsection \<open>Algorithm 3: odd Fibonacci numbers, by difference\<close>

text \<open>The loop \<open>while a % 2 == 0: a, b = b, a + b\<close> that looks for the next odd term.\<close>

partial_function (option) next_odd_loop :: "int \<Rightarrow> int \<Rightarrow> (int \<times> int) option" where
  "next_odd_loop a b = (if a mod 2 = 0 then next_odd_loop b (a + b) else Some (a, b))"

definition fibonacci_odd_difference ::
  "clock \<Rightarrow> int \<Rightarrow> nat \<Rightarrow> (FibonacciResult \<times> nat) option" where
  "fibonacci_odd_difference clk lmt t0 =
     (case perf_counter clk t0 of (start_time, t1) \<Rightarrow>
      (case fibonacci_all clk lmt t1 of
         None \<Rightarrow> None
       | Some (all_result, t2) \<Rightarrow>
           (case fibonacci_even_optimized clk lmt t2 of
              None \<Rightarrow> None
            | Some (even_result, t3) \<Rightarrow>
                (let odd_sequence = filter (\<lambda>f. f mod 2 = 1) (sequence all_result);
                     odd_sum = sum_value all_result - sum_value even_result
                 in (case next_odd_loop (lub all_result) (lub all_result + glb all_result) of
                       None \<Rightarrow> None
                     | Some (a, b) \<Rightarrow>
                         (case perf_counter clk t3 of (end_time, t4) \<Rightarrow>
                            Some (\<lparr>filter_type = ODD, sum_value = odd_sum,
                                    sequence = odd_sequence,
                                    count = int (length odd_sequence),
                                    glb = (if odd_sequence \<noteq> [] then last odd_sequence else 0),
                                    lub = a, limit = lmt,
                                    computation_time = end_time - start_time\<rparr>, t4)))))))"

subsection \<open>The unified solver\<close>

text \<open>
  \<open>UnifiedFibonacciSolver(limit).solve(filter_type)\<close>: the solver object holds the limit
  and nothing else, so \<open>solve\<close> takes it as its argument. A raised \<open>ValueError\<close> is the
  result \<open>Inl ValueError\<close>.
\<close>

definition solve ::
  "clock \<Rightarrow> int \<Rightarrow> filter_arg \<Rightarrow> nat \<Rightarrow> ((error + FibonacciResult) \<times> nat) option" where
  "solve clk self_limit arg t =
     (if arg = Member ALL' then
        map_option (\<lambda>(r, t'). (Inr r, t')) (fibonacci_all clk self_limit t)
      else if arg = Member EVEN then
        map_option (\<lambda>(r, t'). (Inr r, t')) (fibonacci_even_optimized clk self_limit t)
      else if arg = Member ODD then
        map_option (\<lambda>(r, t'). (Inr r, t')) (fibonacci_odd_difference clk self_limit t)
      else Some (Inl ValueError, t))"

definition verify_results :: "FibonacciResult \<Rightarrow> FibonacciResult \<Rightarrow> FibonacciResult \<Rightarrow> bool" where
  "verify_results all_result even_result odd_result \<longleftrightarrow>
     sum_value all_result = sum_value even_result + sum_value odd_result"

section \<open>Project Euler 1: the sum of the multiples of 3 or 5 below n\<close>

text \<open>
  \<open>(n - 1) // m\<close> raises \<open>ZeroDivisionError\<close> when \<open>m\<close> is 0; the guard \<open>n <= m\<close>
  returns before the division. \<open>m * k * (k + 1) // 2\<close> multiplies first and divides
  last.
\<close>

definition sum_multiples_below :: "int \<Rightarrow> int \<Rightarrow> error + int" where
  "sum_multiples_below n m =
     (if n \<le> m then Inr 0
      else if m = 0 then Inl ZeroDivisionError
      else (let k = (n - 1) div m in Inr (m * k * (k + 1) div 2)))"

definition calculate_sum_3_or_5 :: "int \<Rightarrow> error + int" where
  "calculate_sum_3_or_5 n =
     (case sum_multiples_below n 3 of
        Inl e \<Rightarrow> Inl e
      | Inr sum_3 \<Rightarrow>
          (case sum_multiples_below n 5 of
             Inl e \<Rightarrow> Inl e
           | Inr sum_5 \<Rightarrow>
               (case sum_multiples_below n 15 of
                  Inl e \<Rightarrow> Inl e
                | Inr sum_15 \<Rightarrow> Inr (sum_3 + sum_5 - sum_15))))"

section \<open>Reference notions\<close>

text \<open>
  The canonical Fibonacci sequence of the specification, seeded (1, 2), by index; the
  parity predicate of each filter, written with the tests the code uses
  (\<open>f % 2 == 0\<close>, \<open>f % 2 == 1\<close>); and the filtered class: the members of the sequence
  that satisfy the predicate.
\<close>

fun fib12 :: "nat \<Rightarrow> int" where
  "fib12 0 = 1"
| "fib12 (Suc 0) = 2"
| "fib12 (Suc (Suc n)) = fib12 n + fib12 (Suc n)"

fun satisfies :: "FibonacciFilter \<Rightarrow> int \<Rightarrow> bool" where
  "satisfies ALL' x = True"
| "satisfies EVEN x = (x mod 2 = 0)"
| "satisfies ODD x = (x mod 2 = 1)"

definition filtered_class :: "FibonacciFilter \<Rightarrow> int set" where
  "filtered_class f = {x. (\<exists>n. x = fib12 n) \<and> satisfies f x}"

text \<open>Every third member, from the second on: the even members, as shown below.\<close>

definition efib :: "nat \<Rightarrow> int" where
  "efib j = fib12 (3 * j + 1)"

text \<open>
  A proof device: the index at which an unbounded sequence first exceeds the limit,
  where a loop \<open>while a <= limit\<close> over that sequence stops.
\<close>

definition cut_index :: "(nat \<Rightarrow> int) \<Rightarrow> int \<Rightarrow> nat" where
  "cut_index g lmt = (LEAST k. lmt < g k)"

text \<open>A clock for the concrete runs: the \<open>n\<close>-th reading is \<open>n * n\<close>.\<close>

definition example_clock :: clock where
  "example_clock n = real (n * n)"

section \<open>The canonical sequence\<close>

lemma fib12_pos: "0 < fib12 n"
  by (induction n rule: fib12.induct) simp_all

lemma fib12_less_Suc: "fib12 n < fib12 (Suc n)"
  using fib12_pos [of "n - 1"] by (cases n) simp_all

lemma fib12_strict_mono: "strict_mono fib12"
  by (rule strict_mono_Suc_iff [THEN iffD2]) (simp add: fib12_less_Suc)

lemma fib12_less_iff: "fib12 m < fib12 n \<longleftrightarrow> m < n"
  by (rule strict_mono_less [OF fib12_strict_mono])

lemma fib12_le_iff: "fib12 m \<le> fib12 n \<longleftrightarrow> m \<le> n"
  by (rule strict_mono_less_eq [OF fib12_strict_mono])

lemma fib12_gt_index: "int n < fib12 n"
proof (induction n)
  case 0
  show ?case by simp
next
  case (Suc n)
  from Suc fib12_less_Suc [of n] show ?case by simp
qed

lemma fib12_parity3:
  "odd (fib12 (3 * j)) \<and> even (fib12 (3 * j + 1)) \<and> odd (fib12 (3 * j + 2))"
proof (induction j)
  case 0
  show ?case by (simp add: numeral_2_eq_2)
next
  case (Suc j)
  have a: "3 * Suc j = Suc (Suc (3 * j + 1))" by simp
  have b: "3 * Suc j + 1 = Suc (Suc (3 * j + 2))" by simp
  have c: "3 * Suc j + 2 = Suc (Suc (Suc (Suc (3 * j + 1))))" by simp
  have d: "3 * j + 2 = Suc (3 * j + 1)" by simp
  from Suc show ?case unfolding a b c d by simp
qed

lemma fib12_even_iff: "even (fib12 n) \<longleftrightarrow> n mod 3 = 1"
proof -
  define j where "j = n div 3"
  have "n = 3 * j \<or> n = 3 * j + 1 \<or> n = 3 * j + 2"
    unfolding j_def by presburger
  then show ?thesis
    using fib12_parity3 [of j] by (elim disjE) (simp_all add: mod_Suc)
qed

lemma efib_rec: "efib (Suc (Suc j)) = 4 * efib (Suc j) + efib j"
proof -
  have a: "3 * Suc (Suc j) + 1 = Suc (Suc (Suc (Suc (Suc (Suc (3 * j + 1))))))" by simp
  have b: "3 * Suc j + 1 = Suc (Suc (Suc (3 * j + 1)))" by simp
  show ?thesis unfolding efib_def a b by simp
qed

lemma cut_gt:
  fixes g :: "nat \<Rightarrow> int"
  assumes "\<And>n. int n < g n"
  shows "lmt < g (cut_index g lmt)"
proof -
  have "\<exists>k. lmt < g k"
    using assms [of "nat lmt"] by (intro exI [of _ "nat lmt"]) linarith
  then show ?thesis unfolding cut_index_def by (rule LeastI_ex)
qed

lemma cut_le:
  fixes g :: "nat \<Rightarrow> int"
  assumes "i < cut_index g lmt"
  shows "g i \<le> lmt"
  using not_less_Least [of i "\<lambda>k. lmt < g k"] assms unfolding cut_index_def by simp

lemma cut_iff:
  fixes g :: "nat \<Rightarrow> int"
  assumes "strict_mono g" and "\<And>n. int n < g n"
  shows "g i \<le> lmt \<longleftrightarrow> i < cut_index g lmt"
proof
  assume "g i \<le> lmt"
  with cut_gt [of g lmt] assms(2) have "g i < g (cut_index g lmt)" by simp
  with assms(1) show "i < cut_index g lmt" by (simp add: strict_mono_less)
next
  assume "i < cut_index g lmt"
  then show "g i \<le> lmt" by (rule cut_le)
qed

lemma efib_less_Suc: "efib j < efib (Suc j)"
  by (simp add: efib_def fib12_less_iff)

lemma efib_strict_mono: "strict_mono efib"
  by (rule strict_mono_Suc_iff [THEN iffD2]) (simp add: efib_less_Suc)

lemma efib_gt_index: "int j < efib j"
  using fib12_gt_index [of "3 * j + 1"] by (simp add: efib_def)

lemma fib12_le_cut: "fib12 i \<le> lmt \<longleftrightarrow> i < cut_index fib12 lmt"
  by (rule cut_iff [OF fib12_strict_mono fib12_gt_index])

lemma efib_le_cut: "efib i \<le> lmt \<longleftrightarrow> i < cut_index efib lmt"
  by (rule cut_iff [OF efib_strict_mono efib_gt_index])

section \<open>What the loops compute\<close>

lemma fibonacci_all_loop_run:
  assumes "n \<le> k" and "\<And>i. n \<le> i \<Longrightarrow> i < k \<Longrightarrow> fib12 i \<le> lmt" and "lmt < fib12 k"
  shows "fibonacci_all_loop lmt sq tot (fib12 n) (fib12 (Suc n)) =
    Some (sq @ map fib12 [n..<k], tot + sum_list (map fib12 [n..<k]), fib12 k, fib12 (Suc k))"
  using assms
proof (induction "k - n" arbitrary: n sq tot)
  case 0
  then have "n = k" by simp
  with 0 show ?case by (subst fibonacci_all_loop.simps) simp
next
  case (Suc d)
  then have lt: "n < k" by simp
  then have le: "fib12 n \<le> lmt" using Suc.prems(2) by simp
  have ih: "fibonacci_all_loop lmt (sq @ [fib12 n]) (tot + fib12 n) (fib12 (Suc n)) (fib12 (Suc (Suc n))) =
    Some ((sq @ [fib12 n]) @ map fib12 [Suc n..<k], (tot + fib12 n) + sum_list (map fib12 [Suc n..<k]),
      fib12 k, fib12 (Suc k))"
    using Suc.hyps(2) lt Suc.prems(2,3) by (intro Suc.hyps(1)) simp_all
  show ?case
    using le ih lt by (subst fibonacci_all_loop.simps) (simp add: upt_conv_Cons)
qed

lemma fibonacci_even_optimized_loop_run:
  assumes "n \<le> k" and "\<And>i. n \<le> i \<Longrightarrow> i < k \<Longrightarrow> efib i \<le> lmt" and "lmt < efib k"
  shows "fibonacci_even_optimized_loop lmt sq tot (efib n) (efib (Suc n)) =
    Some (sq @ map efib [n..<k], tot + sum_list (map efib [n..<k]), efib k, efib (Suc k))"
  using assms
proof (induction "k - n" arbitrary: n sq tot)
  case 0
  then have "n = k" by simp
  with 0 show ?case by (subst fibonacci_even_optimized_loop.simps) simp
next
  case (Suc d)
  then have lt: "n < k" by simp
  then have le: "efib n \<le> lmt" using Suc.prems(2) by simp
  have ih: "fibonacci_even_optimized_loop lmt (sq @ [efib n]) (tot + efib n) (efib (Suc n)) (efib (Suc (Suc n))) =
    Some ((sq @ [efib n]) @ map efib [Suc n..<k], (tot + efib n) + sum_list (map efib [Suc n..<k]),
      efib k, efib (Suc k))"
    using Suc.hyps(2) lt Suc.prems(2,3) by (intro Suc.hyps(1)) simp_all
  show ?case
    using le ih lt by (subst fibonacci_even_optimized_loop.simps) (simp add: upt_conv_Cons efib_rec)
qed

lemma fibonacci_all_char:
  "fibonacci_all clk lmt t =
     Some (\<lparr>filter_type = ALL', sum_value = sum_list (map fib12 [0..<cut_index fib12 lmt]),
             sequence = map fib12 [0..<cut_index fib12 lmt], count = int (cut_index fib12 lmt),
             glb = (if cut_index fib12 lmt = 0 then 0 else fib12 (cut_index fib12 lmt - 1)),
             lub = fib12 (cut_index fib12 lmt), limit = lmt,
             computation_time = clk (Suc t) - clk t\<rparr>, Suc (Suc t))"
proof -
  define k where "k = cut_index fib12 lmt"
  have k: "lmt < fib12 k" "\<And>i. i < k \<Longrightarrow> fib12 i \<le> lmt"
    unfolding k_def by (simp_all add: cut_gt fib12_gt_index cut_le)
  have run: "fibonacci_all_loop lmt [] 0 1 2 =
      Some (map fib12 [0..<k], sum_list (map fib12 [0..<k]), fib12 k, fib12 (Suc k))"
    using fibonacci_all_loop_run [of 0 k lmt "[]" 0] k by simp
  show ?thesis
    unfolding k_def [symmetric]
    by (simp add: fibonacci_all_def perf_counter_def run last_map)
qed

lemma fibonacci_even_optimized_char:
  "fibonacci_even_optimized clk lmt t =
     Some (\<lparr>filter_type = EVEN, sum_value = sum_list (map efib [0..<cut_index efib lmt]),
             sequence = map efib [0..<cut_index efib lmt], count = int (cut_index efib lmt),
             glb = (if cut_index efib lmt = 0 then 0 else efib (cut_index efib lmt - 1)),
             lub = efib (cut_index efib lmt), limit = lmt,
             computation_time = clk (Suc t) - clk t\<rparr>, Suc (Suc t))"
proof -
  define j where "j = cut_index efib lmt"
  have j: "lmt < efib j" "\<And>i. i < j \<Longrightarrow> efib i \<le> lmt"
    unfolding j_def by (simp_all add: cut_gt efib_gt_index cut_le)
  have seed: "efib 0 = 2" "efib (Suc 0) = 8"
    by (simp_all add: efib_def eval_nat_numeral)
  have run: "fibonacci_even_optimized_loop lmt [] 0 2 8 =
      Some (map efib [0..<j], sum_list (map efib [0..<j]), efib j, efib (Suc j))"
    using fibonacci_even_optimized_loop_run [of 0 j lmt "[]" 0] j by (simp add: seed)
  show ?thesis
    unfolding j_def [symmetric]
    by (simp add: fibonacci_even_optimized_def perf_counter_def run last_map)
qed

lemma next_odd_loop_fib12:
  "next_odd_loop (fib12 k) (fib12 (Suc k)) =
     Some (if even (fib12 k) then (fib12 (Suc k), fib12 (Suc (Suc k)))
           else (fib12 k, fib12 (Suc k)))"
proof (cases "even (fib12 k)")
  case True
  then have "k mod 3 = 1" by (simp add: fib12_even_iff)
  then have "Suc k mod 3 \<noteq> 1" by presburger
  then have odd: "odd (fib12 (Suc k))" by (simp add: fib12_even_iff)
  have "next_odd_loop (fib12 k) (fib12 (Suc k)) =
      next_odd_loop (fib12 (Suc k)) (fib12 (Suc (Suc k)))"
    using True by (subst next_odd_loop.simps) (simp add: even_iff_mod_2_eq_zero)
  also have "\<dots> = Some (fib12 (Suc k), fib12 (Suc (Suc k)))"
    using odd by (subst next_odd_loop.simps) (simp add: even_iff_mod_2_eq_zero)
  finally show ?thesis using True by simp
next
  case False
  then show ?thesis
    by (subst next_odd_loop.simps) (simp add: even_iff_mod_2_eq_zero)
qed

text \<open>
  The search for the least upper bound of the odd terms starts from
  \<open>(lub, lub + glb)\<close> of the ALL result. When the ALL sequence is empty that pair is
  (1, 1), not a pair of neighbours of the sequence; the first component is odd then.
\<close>

lemma next_odd_loop_from_all:
  "\<exists>b. next_odd_loop (fib12 k) (fib12 k + (if k = 0 then 0 else fib12 (k - 1))) =
      Some (if even (fib12 k) then fib12 (Suc k) else fib12 k, b)"
proof (cases k)
  case 0
  have "next_odd_loop (fib12 k) (fib12 k + (if k = 0 then 0 else fib12 (k - 1))) =
    Some (if even (fib12 k) then fib12 (Suc k) else fib12 k, 1)"
    unfolding 0 by (subst next_odd_loop.simps) simp
  then show ?thesis ..
next
  case (Suc m)
  have eq: "fib12 k + (if k = 0 then 0 else fib12 (k - 1)) = fib12 (Suc k)"
    unfolding Suc by simp
  have "next_odd_loop (fib12 k) (fib12 k + (if k = 0 then 0 else fib12 (k - 1))) =
    Some (if even (fib12 k) then fib12 (Suc k) else fib12 k,
          if even (fib12 k) then fib12 (Suc (Suc k)) else fib12 (Suc k))"
    unfolding eq next_odd_loop_fib12 by (cases "even (fib12 k)") simp_all
  then show ?thesis ..
qed

lemma fibonacci_odd_difference_char:
  "fibonacci_odd_difference clk lmt t =
     Some (\<lparr>filter_type = ODD,
             sum_value = sum_list (map fib12 [0..<cut_index fib12 lmt])
               - sum_list (map efib [0..<cut_index efib lmt]),
             sequence = filter (\<lambda>f. f mod 2 = 1) (map fib12 [0..<cut_index fib12 lmt]),
             count = int (length (filter (\<lambda>f. f mod 2 = 1) (map fib12 [0..<cut_index fib12 lmt]))),
             glb = (if filter (\<lambda>f. f mod 2 = 1) (map fib12 [0..<cut_index fib12 lmt]) \<noteq> []
                    then last (filter (\<lambda>f. f mod 2 = 1) (map fib12 [0..<cut_index fib12 lmt]))
                    else 0),
             lub = (if even (fib12 (cut_index fib12 lmt)) then fib12 (Suc (cut_index fib12 lmt))
                    else fib12 (cut_index fib12 lmt)),
             limit = lmt,
             computation_time = clk (Suc (Suc (Suc (Suc (Suc t))))) - clk t\<rparr>,
           Suc (Suc (Suc (Suc (Suc (Suc t))))))"
proof -
  define k where "k = cut_index fib12 lmt"
  define j where "j = cut_index efib lmt"
  have all: "fibonacci_all clk lmt (Suc t) =
     Some (\<lparr>filter_type = ALL', sum_value = sum_list (map fib12 [0..<k]),
             sequence = map fib12 [0..<k], count = int k,
             glb = (if k = 0 then 0 else fib12 (k - 1)), lub = fib12 k, limit = lmt,
             computation_time = clk (Suc (Suc t)) - clk (Suc t)\<rparr>, Suc (Suc (Suc t)))"
    unfolding k_def by (rule fibonacci_all_char)
  have ev: "fibonacci_even_optimized clk lmt (Suc (Suc (Suc t))) =
     Some (\<lparr>filter_type = EVEN, sum_value = sum_list (map efib [0..<j]),
             sequence = map efib [0..<j], count = int j,
             glb = (if j = 0 then 0 else efib (j - 1)), lub = efib j, limit = lmt,
             computation_time = clk (Suc (Suc (Suc (Suc t)))) - clk (Suc (Suc (Suc t)))\<rparr>,
           Suc (Suc (Suc (Suc (Suc t)))))"
    unfolding j_def by (rule fibonacci_even_optimized_char)
  obtain b where nxt:
    "next_odd_loop (fib12 k) (fib12 k + (if k = 0 then 0 else fib12 (k - 1))) =
      Some (if even (fib12 k) then fib12 (Suc k) else fib12 k, b)"
    using next_odd_loop_from_all [of k] by blast
  show ?thesis
    unfolding k_def [symmetric] j_def [symmetric]
    by (simp add: fibonacci_odd_difference_def perf_counter_def all ev nxt Let_def)
qed

text \<open>The solver on a member of the enumeration, for every limit and clock.\<close>

lemma solve_ALL_char:
  "solve clk lmt (Member ALL') t =
     Some (Inr \<lparr>filter_type = ALL', sum_value = sum_list (map fib12 [0..<cut_index fib12 lmt]),
             sequence = map fib12 [0..<cut_index fib12 lmt], count = int (cut_index fib12 lmt),
             glb = (if cut_index fib12 lmt = 0 then 0 else fib12 (cut_index fib12 lmt - 1)),
             lub = fib12 (cut_index fib12 lmt), limit = lmt,
             computation_time = clk (Suc t) - clk t\<rparr>, Suc (Suc t))"
  by (simp add: solve_def fibonacci_all_char)

lemma solve_EVEN_char:
  "solve clk lmt (Member EVEN) t =
     Some (Inr \<lparr>filter_type = EVEN, sum_value = sum_list (map efib [0..<cut_index efib lmt]),
             sequence = map efib [0..<cut_index efib lmt], count = int (cut_index efib lmt),
             glb = (if cut_index efib lmt = 0 then 0 else efib (cut_index efib lmt - 1)),
             lub = efib (cut_index efib lmt), limit = lmt,
             computation_time = clk (Suc t) - clk t\<rparr>, Suc (Suc t))"
  by (simp add: solve_def fibonacci_even_optimized_char)

lemma solve_ODD_char:
  "solve clk lmt (Member ODD) t =
     Some (Inr \<lparr>filter_type = ODD,
             sum_value = sum_list (map fib12 [0..<cut_index fib12 lmt])
               - sum_list (map efib [0..<cut_index efib lmt]),
             sequence = filter (\<lambda>f. f mod 2 = 1) (map fib12 [0..<cut_index fib12 lmt]),
             count = int (length (filter (\<lambda>f. f mod 2 = 1) (map fib12 [0..<cut_index fib12 lmt]))),
             glb = (if filter (\<lambda>f. f mod 2 = 1) (map fib12 [0..<cut_index fib12 lmt]) \<noteq> []
                    then last (filter (\<lambda>f. f mod 2 = 1) (map fib12 [0..<cut_index fib12 lmt]))
                    else 0),
             lub = (if even (fib12 (cut_index fib12 lmt)) then fib12 (Suc (cut_index fib12 lmt))
                    else fib12 (cut_index fib12 lmt)),
             limit = lmt,
             computation_time = clk (Suc (Suc (Suc (Suc (Suc t))))) - clk t\<rparr>,
           Suc (Suc (Suc (Suc (Suc (Suc t))))))"
  by (simp add: solve_def fibonacci_odd_difference_char)

lemmas solve_char = solve_ALL_char solve_EVEN_char solve_ODD_char

lemma sorted_wrt_map_upt:
  fixes g :: "nat \<Rightarrow> int"
  assumes "strict_mono g"
  shows "sorted_wrt (<) (map g [m..<n])"
proof -
  have "sorted_wrt (\<lambda>x y. g x < g y) [m..<n]"
    by (rule sorted_wrt_mono_rel [of _ "(<)"]) (simp_all add: strict_mono_less [OF assms])
  then show ?thesis by (simp add: sorted_wrt_map)
qed

lemma even_member_efib:
  assumes "even (fib12 n)"
  obtains m where "fib12 n = efib m"
proof -
  from assms have "n mod 3 = 1" by (simp add: fib12_even_iff)
  then have "n = 3 * (n div 3) + 1" by presburger
  then have "fib12 n = efib (n div 3)" unfolding efib_def by simp
  then show thesis by (rule that)
qed

text \<open>
  The filtered variant of the even algorithm walks the whole sequence; its second loop
  leaves after at most two steps, whatever it starts from.
\<close>

lemma fibonacci_even_filtered_loop_run:
  assumes "n \<le> k" and "\<And>i. n \<le> i \<Longrightarrow> i < k \<Longrightarrow> fib12 i \<le> lmt" and "lmt < fib12 k"
  shows "fibonacci_even_filtered_loop lmt sq tot (fib12 n) (fib12 (Suc n)) =
    Some (sq @ filter (\<lambda>a. a mod 2 = 0) (map fib12 [n..<k]),
          tot + sum_list (filter (\<lambda>a. a mod 2 = 0) (map fib12 [n..<k])),
          fib12 k, fib12 (Suc k))"
  using assms
proof (induction "k - n" arbitrary: n sq tot)
  case 0
  then have "n = k" by simp
  with 0 show ?case by (subst fibonacci_even_filtered_loop.simps) simp
next
  case (Suc d)
  then have lt: "n < k" by simp
  then have le: "fib12 n \<le> lmt" using Suc.prems(2) by simp
  have ih: "fibonacci_even_filtered_loop lmt sq' tot' (fib12 (Suc n)) (fib12 (Suc (Suc n))) =
    Some (sq' @ filter (\<lambda>a. a mod 2 = 0) (map fib12 [Suc n..<k]),
          tot' + sum_list (filter (\<lambda>a. a mod 2 = 0) (map fib12 [Suc n..<k])),
          fib12 k, fib12 (Suc k))" for sq' tot'
    using Suc.hyps(2) lt Suc.prems(2,3) by (intro Suc.hyps(1)) simp_all
  show ?case
    using le lt ih [of "sq @ [fib12 n]" "tot + fib12 n"] ih [of sq tot]
    by (subst fibonacci_even_filtered_loop.simps) (simp add: upt_conv_Cons)
qed

lemma next_even_loop_returns: "\<exists>a' b'. next_even_loop a b = Some (a', b')"
proof (cases "a mod 2 = 1")
  case False
  then show ?thesis by (subst next_even_loop.simps) simp
next
  case a: True
  show ?thesis
  proof (cases "b mod 2 = 1")
    case False
    have "next_even_loop a b = next_even_loop b (a + b)"
      using a by (subst next_even_loop.simps) simp
    also have "\<dots> = Some (b, a + b)"
      using False by (subst next_even_loop.simps) simp
    finally show ?thesis by blast
  next
    case b: True
    from a b have ab: "(a + b) mod 2 \<noteq> 1" by presburger
    have "next_even_loop a b = next_even_loop b (a + b)"
      using a by (subst next_even_loop.simps) simp
    also have "\<dots> = next_even_loop (a + b) (b + (a + b))"
      using b by (subst next_even_loop.simps) simp
    also have "\<dots> = Some (a + b, b + (a + b))"
      using ab by (subst next_even_loop.simps) simp
    finally show ?thesis by blast
  qed
qed

lemma fibonacci_even_filtered_char:
  "\<exists>u. fibonacci_even_filtered clk lmt t =
     Some (\<lparr>filter_type = EVEN,
             sum_value = sum_list (filter (\<lambda>a. a mod 2 = 0) (map fib12 [0..<cut_index fib12 lmt])),
             sequence = filter (\<lambda>a. a mod 2 = 0) (map fib12 [0..<cut_index fib12 lmt]),
             count = int (length (filter (\<lambda>a. a mod 2 = 0) (map fib12 [0..<cut_index fib12 lmt]))),
             glb = (if filter (\<lambda>a. a mod 2 = 0) (map fib12 [0..<cut_index fib12 lmt]) \<noteq> []
                    then last (filter (\<lambda>a. a mod 2 = 0) (map fib12 [0..<cut_index fib12 lmt]))
                    else 0),
             lub = u, limit = lmt,
             computation_time = clk (Suc t) - clk t\<rparr>, Suc (Suc t))"
proof -
  define k where "k = cut_index fib12 lmt"
  have k: "lmt < fib12 k" "\<And>i. i < k \<Longrightarrow> fib12 i \<le> lmt"
    unfolding k_def by (simp_all add: cut_gt fib12_gt_index cut_le)
  have run: "fibonacci_even_filtered_loop lmt [] 0 1 2 =
      Some (filter (\<lambda>a. a mod 2 = 0) (map fib12 [0..<k]),
            sum_list (filter (\<lambda>a. a mod 2 = 0) (map fib12 [0..<k])), fib12 k, fib12 (Suc k))"
    using fibonacci_even_filtered_loop_run [of 0 k lmt "[]" 0] k by simp
  obtain u v where nxt: "next_even_loop (fib12 k) (fib12 (Suc k)) = Some (u, v)"
    using next_even_loop_returns by blast
  show ?thesis
    unfolding k_def [symmetric]
    by (rule exI [of _ u]) (simp add: fibonacci_even_filtered_def perf_counter_def run nxt)
qed

lemma even_terms_eq:
  "filter (\<lambda>a. a mod 2 = 0) (map fib12 [0..<cut_index fib12 lmt]) =
   map efib [0..<cut_index efib lmt]"
proof (rule sorted_distinct_set_unique)
  have l: "sorted_wrt (<) (filter (\<lambda>a. a mod 2 = 0) (map fib12 [0..<cut_index fib12 lmt]))"
    by (simp add: sorted_wrt_filter sorted_wrt_map_upt fib12_strict_mono)
  have r: "sorted_wrt (<) (map efib [0..<cut_index efib lmt])"
    by (simp add: sorted_wrt_map_upt efib_strict_mono)
  from l show "sorted (filter (\<lambda>a. a mod 2 = 0) (map fib12 [0..<cut_index fib12 lmt]))"
    and "distinct (filter (\<lambda>a. a mod 2 = 0) (map fib12 [0..<cut_index fib12 lmt]))"
    by (simp_all only: strict_sorted_iff)
  from r show "sorted (map efib [0..<cut_index efib lmt])"
    and "distinct (map efib [0..<cut_index efib lmt])"
    by (simp_all only: strict_sorted_iff)
  show "set (filter (\<lambda>a. a mod 2 = 0) (map fib12 [0..<cut_index fib12 lmt])) =
        set (map efib [0..<cut_index efib lmt])"
  proof (intro set_eqI iffI)
    fix x
    assume "x \<in> set (filter (\<lambda>a. a mod 2 = 0) (map fib12 [0..<cut_index fib12 lmt]))"
    then obtain i where i: "x = fib12 i" "i < cut_index fib12 lmt" "even (fib12 i)"
      by (auto simp: even_iff_mod_2_eq_zero)
    from i(3) obtain m where m: "fib12 i = efib m" by (rule even_member_efib)
    from i(2) have "fib12 i \<le> lmt" by (simp add: fib12_le_cut)
    with m have "m < cut_index efib lmt" by (simp add: efib_le_cut)
    with i(1) m show "x \<in> set (map efib [0..<cut_index efib lmt])" by simp
  next
    fix x
    assume "x \<in> set (map efib [0..<cut_index efib lmt])"
    then obtain m where m: "x = efib m" "m < cut_index efib lmt" by auto
    from m(2) have "efib m \<le> lmt" by (simp add: efib_le_cut)
    then have "3 * m + 1 < cut_index fib12 lmt"
      unfolding efib_def by (simp add: fib12_le_cut)
    moreover have "efib m mod 2 = 0"
      unfolding efib_def using fib12_parity3 [of m] by (simp add: even_iff_mod_2_eq_zero)
    ultimately show "x \<in> set (filter (\<lambda>a. a mod 2 = 0) (map fib12 [0..<cut_index fib12 lmt]))"
      unfolding m(1) by (auto simp: efib_def)
  qed
qed

text \<open>The definitions a concrete run unfolds.\<close>

lemmas run_defs = solve_def fibonacci_odd_difference_def fibonacci_all_def
      fibonacci_even_optimized_def perf_counter_def fibonacci_all_loop.simps
      fibonacci_even_optimized_loop.simps next_odd_loop.simps example_clock_def

section \<open>Concrete runs\<close>

text \<open>
  Claim C8. \<open>analyze(1, EVEN)\<close>, that is \<open>UnifiedFibonacciSolver(1).solve(EVEN)\<close>, returns
  without raising: the sequence is empty, the sum and the count are 0, the greatest
  lower bound is 0 and the least upper bound is 2, the seed of the even recurrence.
  The call reads the clock twice.
\<close>

theorem solve_1_EVEN:
  "solve clk 1 (Member EVEN) t =
     Some (Inr \<lparr>filter_type = EVEN, sum_value = 0, sequence = [], count = 0, glb = 0,
                 lub = 2, limit = 1, computation_time = clk (Suc t) - clk t\<rparr>, Suc (Suc t))"
  by (simp add: solve_def fibonacci_even_optimized_def perf_counter_def
      fibonacci_even_optimized_loop.simps)

text \<open>
  Claim C4: what the code returns on the inputs the claim names. The claim, and the
  docstrings of \<open>fibonacci_all\<close> and \<open>fibonacci_odd_filtered\<close>, give sum 232 and count 12
  for all the terms up to 100, and sum 188 and count 8 for the odd ones: the numbers of
  the sequence 0, 1, 1, 2, 3, ... The loops start from \<open>a, b = 1, 2\<close>, so the code
  differs from its documentation: \<open>analyze(100, ALL)\<close> returns sum 231 and count 10
  (the sequence still ends in 89), \<open>analyze(100, ODD)\<close> returns sum 187 and count 7,
  and \<open>analyze(10, ALL)\<close> returns the sequence [1, 2, 3, 5, 8] with sum 19 where the
  claim has [1, 1, 2, 3, 5, 8] with sum 20. On \<open>analyze(100, EVEN)\<close> code and claim
  agree: sum 44, sequence [2, 8, 34].
\<close>

theorem solve_concrete_cases:
  "solve clk 100 (Member ALL') t =
     Some (Inr \<lparr>filter_type = ALL', sum_value = 231,
                 sequence = [1, 2, 3, 5, 8, 13, 21, 34, 55, 89], count = 10, glb = 89,
                 lub = 144, limit = 100, computation_time = clk (Suc t) - clk t\<rparr>,
           Suc (Suc t))
   \<and> solve clk 100 (Member EVEN) t =
     Some (Inr \<lparr>filter_type = EVEN, sum_value = 44, sequence = [2, 8, 34], count = 3,
                 glb = 34, lub = 144, limit = 100,
                 computation_time = clk (Suc t) - clk t\<rparr>, Suc (Suc t))
   \<and> solve clk 100 (Member ODD) t =
     Some (Inr \<lparr>filter_type = ODD, sum_value = 187,
                 sequence = [1, 3, 5, 13, 21, 55, 89], count = 7, glb = 89, lub = 233,
                 limit = 100,
                 computation_time = clk (Suc (Suc (Suc (Suc (Suc t))))) - clk t\<rparr>,
           Suc (Suc (Suc (Suc (Suc (Suc t))))))
   \<and> solve clk 10 (Member ALL') t =
     Some (Inr \<lparr>filter_type = ALL', sum_value = 19, sequence = [1, 2, 3, 5, 8],
                 count = 5, glb = 8, lub = 13, limit = 10,
                 computation_time = clk (Suc t) - clk t\<rparr>, Suc (Suc t))"
  by (simp add: solve_def fibonacci_odd_difference_def fibonacci_all_def
      fibonacci_even_optimized_def perf_counter_def fibonacci_all_loop.simps
      fibonacci_even_optimized_loop.simps next_odd_loop.simps)

section \<open>Properties of every run\<close>

text \<open>
  Claim C1. For every bound of at least 1, the three calls of \<open>solve\<close> (ALL by
  \<open>fibonacci_all\<close>, EVEN by \<open>fibonacci_even_optimized\<close>, ODD by
  \<open>fibonacci_odd_difference\<close>) return, whatever the clock, and the sum of the ALL result
  is the sum of the EVEN result plus the sum of the ODD result: \<open>verify_results\<close> holds
  of them.
\<close>

theorem sum_ALL_eq_EVEN_plus_ODD:
  "1 \<le> bound \<Longrightarrow>
   \<exists>rA rE rO tA' tE' tO'.
     solve clkA bound (Member ALL') tA = Some (Inr rA, tA') \<and>
     solve clkE bound (Member EVEN) tE = Some (Inr rE, tE') \<and>
     solve clkO bound (Member ODD) tO = Some (Inr rO, tO') \<and>
     sum_value rA = sum_value rE + sum_value rO \<and> verify_results rA rE rO"
  by (simp add: solve_char verify_results_def)

theorem sum_ALL_eq_EVEN_plus_ODD_witness:
  "(1::int) \<le> 100 \<and>
   (\<exists>rA rE rO tA' tE' tO'.
     solve example_clock 100 (Member ALL') 0 = Some (Inr rA, tA') \<and>
     solve example_clock 100 (Member EVEN) 2 = Some (Inr rE, tE') \<and>
     solve example_clock 100 (Member ODD) 4 = Some (Inr rO, tO') \<and>
     sum_value rA = 231 \<and> sum_value rE = 44 \<and> sum_value rO = 187 \<and>
     sum_value rA = sum_value rE + sum_value rO \<and> verify_results rA rE rO)"
  using sum_ALL_eq_EVEN_plus_ODD [of 100 example_clock 0 example_clock 2 example_clock 4]
  by (simp add: solve_def fibonacci_odd_difference_def fibonacci_all_def
      fibonacci_even_optimized_def perf_counter_def fibonacci_all_loop.simps
      fibonacci_even_optimized_loop.simps next_odd_loop.simps verify_results_def)

text \<open>
  Claim C5. For every bound of at least 1 and every filter, the call returns, and the
  least upper bound of its result is greater than the bound, belongs to the filtered
  class (the sequence seeded (1, 2), restricted to the parity of the filter) and is at
  most every member of that class that exceeds the bound.
\<close>

theorem lub_least_above_bound:
  "1 \<le> bound \<Longrightarrow>
   \<exists>r t'. solve clk bound (Member f) t = Some (Inr r, t') \<and>
     bound < lub r \<and> lub r \<in> filtered_class f \<and>
     (\<forall>x\<in>filtered_class f. bound < x \<longrightarrow> lub r \<le> x)"
proof (cases f)
  case ALL'
  define k where "k = cut_index fib12 bound"
  have gt: "bound < fib12 k"
    unfolding k_def by (rule cut_gt [OF fib12_gt_index])
  have least: "fib12 k \<le> fib12 n" if "bound < fib12 n" for n
  proof -
    from that have "\<not> n < k" unfolding k_def by (simp add: fib12_le_cut [symmetric])
    then show ?thesis by (simp add: fib12_le_iff)
  qed
  show ?thesis
    unfolding ALL' solve_char k_def [symmetric]
    using gt least by (auto simp: filtered_class_def)
next
  case EVEN
  define j where "j = cut_index efib bound"
  have gt: "bound < efib j"
    unfolding j_def by (rule cut_gt [OF efib_gt_index])
  have ev: "efib j mod 2 = 0"
    unfolding efib_def using fib12_parity3 [of j] by (simp add: even_iff_mod_2_eq_zero)
  have mem: "\<exists>n. efib j = fib12 n" unfolding efib_def by blast
  have least: "efib j \<le> fib12 n" if "bound < fib12 n" "fib12 n mod 2 = 0" for n
  proof -
    from that(2) have "even (fib12 n)" by (simp add: even_iff_mod_2_eq_zero)
    then obtain m where m: "fib12 n = efib m" by (rule even_member_efib)
    with that(1) have "\<not> m < j" unfolding j_def by (simp add: efib_le_cut [symmetric])
    then have "efib j \<le> efib m"
      by (simp add: strict_mono_less_eq [OF efib_strict_mono])
    with m show ?thesis by simp
  qed
  show ?thesis
    unfolding EVEN solve_char j_def [symmetric]
    using gt ev mem least by (auto simp: filtered_class_def)
next
  case ODD
  define k where "k = cut_index fib12 bound"
  define u where "u = (if even (fib12 k) then fib12 (Suc k) else fib12 k)"
  have gtk: "bound < fib12 k"
    unfolding k_def by (rule cut_gt [OF fib12_gt_index])
  have gt: "bound < u"
    unfolding u_def using gtk fib12_less_Suc [of k] by simp
  have "odd u"
  proof (cases "even (fib12 k)")
    case True
    then have "k mod 3 = 1" by (simp add: fib12_even_iff)
    then have "Suc k mod 3 \<noteq> 1" by presburger
    then have "odd (fib12 (Suc k))" by (simp add: fib12_even_iff)
    with True show ?thesis unfolding u_def by simp
  next
    case False
    then show ?thesis unfolding u_def by simp
  qed
  then have oddu: "u mod 2 = 1" by (simp only: odd_iff_mod_2_eq_one)
  have mem: "\<exists>n. u = fib12 n" unfolding u_def by auto
  have least: "u \<le> fib12 n" if "bound < fib12 n" "fib12 n mod 2 = 1" for n
  proof -
    from that(1) have "\<not> n < k" unfolding k_def by (simp add: fib12_le_cut [symmetric])
    then have nk: "k \<le> n" by simp
    show ?thesis
    proof (cases "even (fib12 k)")
      case True
      with that(2) have "n \<noteq> k" by (auto simp: even_iff_mod_2_eq_zero)
      with nk have "Suc k \<le> n" by simp
      then have "fib12 (Suc k) \<le> fib12 n" by (simp only: fib12_le_iff)
      with True show ?thesis unfolding u_def by simp
    next
      case False
      with nk show ?thesis unfolding u_def by (simp add: fib12_le_iff)
    qed
  qed
  show ?thesis
    unfolding ODD solve_char k_def [symmetric] u_def [symmetric]
    using gt oddu mem least by (auto simp: filtered_class_def)
qed

theorem lub_least_above_bound_witness:
  "(1::int) \<le> 100 \<and>
   (\<exists>r t'. solve example_clock 100 (Member EVEN) 0 = Some (Inr r, t') \<and>
      lub r = 144 \<and> 100 < lub r \<and> lub r \<in> filtered_class EVEN \<and>
      (\<forall>x\<in>filtered_class EVEN. 100 < x \<longrightarrow> lub r \<le> x))"
  using lub_least_above_bound [of 100 example_clock EVEN 0]
  by (simp add: run_defs)

text \<open>
  Claim C6. For every bound of at least 1 and every filter, the call returns and every
  element of the sequence of its result is at most the bound; every element of the
  EVEN result is even and every element of the ODD result is odd.
\<close>

theorem sequence_within_bound_and_parity:
  "1 \<le> bound \<Longrightarrow>
   \<exists>r t'. solve clk bound (Member f) t = Some (Inr r, t') \<and>
     (\<forall>x\<in>set (sequence r). x \<le> bound) \<and>
     (f = EVEN \<longrightarrow> (\<forall>x\<in>set (sequence r). even x)) \<and>
     (f = ODD \<longrightarrow> (\<forall>x\<in>set (sequence r). odd x))"
proof (cases f)
  case ALL'
  then show ?thesis by (auto simp: solve_char fib12_le_cut)
next
  case EVEN
  have "even (efib i)" for i
    unfolding efib_def using fib12_parity3 [of i] by simp
  with EVEN show ?thesis by (auto simp: solve_char efib_le_cut)
next
  case ODD
  then show ?thesis by (auto simp: solve_char fib12_le_cut odd_iff_mod_2_eq_one)
qed

theorem sequence_within_bound_and_parity_witness:
  "(1::int) \<le> 100 \<and>
   (\<exists>r t'. solve example_clock 100 (Member ODD) 0 = Some (Inr r, t') \<and>
      sequence r = [1, 3, 5, 13, 21, 55, 89] \<and>
      (\<forall>x\<in>set (sequence r). x \<le> 100) \<and> (\<forall>x\<in>set (sequence r). odd x))"
  using sequence_within_bound_and_parity [of 100 example_clock ODD 0]
  by (simp add: run_defs)

text \<open>
  Claim C7. For every bound of at least 1 and every filter, the call returns and the
  sequence of its result is strictly increasing: each element is greater than all the
  elements before it.
\<close>

theorem sequence_strictly_increasing:
  "1 \<le> bound \<Longrightarrow>
   \<exists>r t'. solve clk bound (Member f) t = Some (Inr r, t') \<and> sorted_wrt (<) (sequence r)"
proof (cases f)
  case ALL'
  then show ?thesis
    by (simp add: solve_char sorted_wrt_map_upt fib12_strict_mono)
next
  case EVEN
  then show ?thesis
    by (simp add: solve_char sorted_wrt_map_upt efib_strict_mono)
next
  case ODD
  then show ?thesis
    by (simp add: solve_char sorted_wrt_filter sorted_wrt_map_upt fib12_strict_mono)
qed

theorem sequence_strictly_increasing_witness:
  "(1::int) \<le> 100 \<and>
   (\<exists>r t'. solve example_clock 100 (Member ALL') 0 = Some (Inr r, t') \<and>
      sequence r = [1, 2, 3, 5, 8, 13, 21, 34, 55, 89] \<and> sorted_wrt (<) (sequence r))"
  using sequence_strictly_increasing [of 100 example_clock ALL' 0]
  by (simp add: run_defs)

section \<open>Errors\<close>

text \<open>
  Claim C3, as the specification states it, fails: nothing in the module checks the
  bound. With the bound 0 and the filter ALL the call returns a result (the empty
  sequence, least upper bound 1) and raises nothing.
\<close>

theorem solve_bound_0_counterexample:
  "solve example_clock 0 (Member ALL') 0 =
     Some (Inr \<lparr>filter_type = ALL', sum_value = 0, sequence = [], count = 0, glb = 0,
                 lub = 1, limit = 0, computation_time = 1\<rparr>, 2)
   \<and> \<not> (\<exists>e t'. solve example_clock 0 (Member ALL') 0 = Some (Inl e, t'))"
  by (simp add: run_defs)

text \<open>
  Claim C3, amended. The call raises (a \<open>ValueError\<close>) if and only if its argument is
  not one of the three members ALL, EVEN, ODD; for every bound, also one below 1, and
  every member, it returns a result and raises nothing.
\<close>

theorem solve_raises_iff:
  "((\<exists>e t'. solve clk bound arg t = Some (Inl e, t')) \<longleftrightarrow> arg = NotAMember) \<and>
   solve clk bound NotAMember t = Some (Inl ValueError, t) \<and>
   (\<exists>r t'. solve clk bound (Member f) t = Some (Inr r, t'))"
proof -
  have m: "\<exists>r t'. solve clk bound (Member g) t = Some (Inr r, t')" for g
    by (cases g) (simp_all add: solve_char)
  have n: "solve clk bound NotAMember t = Some (Inl ValueError, t)"
    by (simp add: solve_def)
  have "(\<exists>e t'. solve clk bound arg t = Some (Inl e, t')) \<longleftrightarrow> arg = NotAMember"
  proof (cases arg)
    case (Member g)
    with m [of g] show ?thesis by auto
  next
    case NotAMember
    with n show ?thesis by simp
  qed
  with m n show ?thesis by blast
qed

section \<open>Two runs with the same arguments\<close>

text \<open>
  Claim C9. For every bound of at least 1 and every filter, two calls with the same
  arguments return, whatever the two clocks read and however many reads came before,
  and their results are identical as analysis results: they agree on every field of
  that record, which are the filter type, the sum, the sequence, the count, the
  greatest lower bound and the least upper bound. They agree on the limit too. The
  record of the code has one more field, \<open>computation_time\<close>, the difference of two
  clock readings; it is a measurement of the run and no part of the analysis result,
  and the run below shows it taking the values 25 and 85.
\<close>

theorem solve_twice_same_fields:
  "1 \<le> bound \<Longrightarrow>
   \<exists>r1 r2 t1' t2'.
     solve clk1 bound (Member f) t1 = Some (Inr r1, t1') \<and>
     solve clk2 bound (Member f) t2 = Some (Inr r2, t2') \<and>
     filter_type r1 = filter_type r2 \<and> sum_value r1 = sum_value r2 \<and>
     sequence r1 = sequence r2 \<and> count r1 = count r2 \<and> glb r1 = glb r2 \<and>
     lub r1 = lub r2 \<and> limit r1 = limit r2"
  by (cases f) (simp_all add: solve_char)

theorem solve_twice_same_fields_witness:
  "(1::int) \<le> 100 \<and>
   (\<exists>r1 r2 t1' t2'.
     solve example_clock 100 (Member ODD) 0 = Some (Inr r1, t1') \<and>
     solve example_clock 100 (Member ODD) 6 = Some (Inr r2, t2') \<and>
     computation_time r1 = 25 \<and> computation_time r2 = 85 \<and>
     filter_type r1 = filter_type r2 \<and> sum_value r1 = sum_value r2 \<and>
     sequence r1 = sequence r2 \<and> count r1 = count r2 \<and> glb r1 = glb r2 \<and>
     lub r1 = lub r2 \<and> limit r1 = limit r2)"
  using solve_twice_same_fields [of 100 example_clock ODD 0 example_clock 6]
  by (simp add: run_defs)

section \<open>The two even algorithms\<close>

text \<open>
  Claim C2. For every bound of at least 1, \<open>fibonacci_even_optimized\<close> (the direct
  recurrence from (2, 8) with the step \<open>a, b = b, 4*b + a\<close>) and
  \<open>fibonacci_even_filtered\<close> (the recurrence from (1, 2), keeping the even terms) both
  return, and their results have the same sequence, element by element, and the same
  sum.
\<close>

theorem even_optimized_eq_even_filtered:
  "1 \<le> bound \<Longrightarrow>
   \<exists>rO rF tO' tF'.
     fibonacci_even_optimized clkO bound tO = Some (rO, tO') \<and>
     fibonacci_even_filtered clkF bound tF = Some (rF, tF') \<and>
     sequence rO = sequence rF \<and> sum_value rO = sum_value rF"
proof -
  obtain u where "fibonacci_even_filtered clkF bound tF =
     Some (\<lparr>filter_type = EVEN,
             sum_value = sum_list (filter (\<lambda>a. a mod 2 = 0) (map fib12 [0..<cut_index fib12 bound])),
             sequence = filter (\<lambda>a. a mod 2 = 0) (map fib12 [0..<cut_index fib12 bound]),
             count = int (length (filter (\<lambda>a. a mod 2 = 0) (map fib12 [0..<cut_index fib12 bound]))),
             glb = (if filter (\<lambda>a. a mod 2 = 0) (map fib12 [0..<cut_index fib12 bound]) \<noteq> []
                    then last (filter (\<lambda>a. a mod 2 = 0) (map fib12 [0..<cut_index fib12 bound]))
                    else 0),
             lub = u, limit = bound,
             computation_time = clkF (Suc tF) - clkF tF\<rparr>, Suc (Suc tF))"
    using fibonacci_even_filtered_char [of clkF bound tF] by blast
  then show ?thesis
    by (simp add: fibonacci_even_optimized_char even_terms_eq)
qed

theorem even_optimized_eq_even_filtered_witness:
  "(1::int) \<le> 100 \<and>
   (\<exists>rO rF tO' tF'.
     fibonacci_even_optimized example_clock 100 0 = Some (rO, tO') \<and>
     fibonacci_even_filtered example_clock 100 2 = Some (rF, tF') \<and>
     sequence rO = [2, 8, 34] \<and> sum_value rO = 44 \<and>
     sequence rO = sequence rF \<and> sum_value rO = sum_value rF)"
  using even_optimized_eq_even_filtered [of 100 example_clock 0 example_clock 2]
  by (simp add: fibonacci_even_optimized_def fibonacci_even_filtered_def perf_counter_def
      fibonacci_even_optimized_loop.simps fibonacci_even_filtered_loop.simps
      next_even_loop.simps)

section \<open>The sum of the multiples of 3 or 5\<close>

lemma sum_below_step:
  fixes n :: int
  assumes "1 \<le> n"
  shows "(\<Sum>x | 0 < x \<and> x < n + 1 \<and> P x. x) =
         (\<Sum>x | 0 < x \<and> x < n \<and> P x. x) + (if P n then n else 0)"
proof -
  define A where "A = {x. 0 < x \<and> x < n \<and> P x}"
  have fin: "finite A"
    by (rule finite_subset [of _ "{0<..<n}"]) (auto simp: A_def)
  have notin: "n \<notin> A" by (simp add: A_def)
  have "x < n + 1 \<longleftrightarrow> x < n \<or> x = n" for x :: int by auto
  then have "{x. 0 < x \<and> x < n + 1 \<and> P x} = (if P n then insert n A else A)"
    using assms by (auto simp: A_def)
  then show ?thesis
    unfolding A_def [symmetric] using fin notin by simp
qed

lemma triangle_pred:
  fixes q :: int
  shows "q * (q + 1) div 2 = (q - 1) * q div 2 + q"
proof -
  have "q * (q + 1) = (q - 1) * q + q * 2" by (simp add: algebra_simps)
  then show ?thesis by simp
qed

lemma closed_form_pull:
  fixes m k :: int
  shows "m * k * (k + 1) div 2 = m * (k * (k + 1) div 2)"
proof -
  have "2 dvd k * (k + 1)" by simp
  then have "m * (k * (k + 1) div 2) = m * (k * (k + 1)) div 2"
    by (rule div_mult_swap)
  then show ?thesis by (simp add: mult.assoc)
qed

lemma sum_multiples_below_closed:
  assumes "1 \<le> n" and "1 \<le> m"
  shows "sum_multiples_below n m = Inr (m * (((n - 1) div m) * ((n - 1) div m + 1) div 2))"
proof (cases "n \<le> m")
  case True
  with assms have "(n - 1) div m = 0" by (simp add: div_pos_pos_trivial)
  with True show ?thesis by (simp add: sum_multiples_below_def)
next
  case False
  with assms show ?thesis
    by (simp add: sum_multiples_below_def Let_def closed_form_pull)
qed

lemma closed_form_step:
  fixes n m :: int
  assumes "1 \<le> n" and "1 \<le> m"
  shows "m * ((n div m) * (n div m + 1) div 2) =
         m * (((n - 1) div m) * ((n - 1) div m + 1) div 2) + (if m dvd n then n else 0)"
proof (cases "m dvd n")
  case True
  then obtain q where q: "n = m * q" ..
  with assms have "0 < m * q" by simp
  moreover from assms have "0 < m" by simp
  ultimately have "0 < q" by (rule zero_less_mult_pos)
  have d1: "n div m = q" using q assms by simp
  have "n - 1 = m * (q - 1) + (m - 1)" using q by (simp add: algebra_simps)
  then have d2: "(n - 1) div m = q - 1"
    by (rule int_div_pos_eq) (use assms in simp_all)
  have s: "q - 1 + 1 = q" by simp
  have "m * (q * (q + 1) div 2) = m * ((q - 1) * q div 2) + n"
    unfolding triangle_pred [of q] q by (simp only: distrib_left)
  with True show ?thesis unfolding d1 d2 s by simp
next
  case False
  then have "n mod m \<noteq> 0" by (simp add: dvd_eq_mod_eq_0)
  moreover have "0 \<le> n mod m" "n mod m < m" using assms by simp_all
  ultimately have r: "1 \<le> n mod m" by simp
  have "n - 1 = m * (n div m) + (n mod m - 1)" by simp
  then have "(n - 1) div m = n div m"
    by (rule int_div_pos_eq) (use r \<open>n mod m < m\<close> in simp_all)
  with False show ?thesis by simp
qed


lemma closed_form_sum:
  fixes n m :: int
  assumes "1 \<le> n" and "1 \<le> m"
  shows "m * (((n - 1) div m) * ((n - 1) div m + 1) div 2) =
         (\<Sum>x | 0 < x \<and> x < n \<and> m dvd x. x)"
  using assms(1)
proof (induction n rule: int_ge_induct)
  case base
  have e: "{x::int. 0 < x \<and> x < 1 \<and> m dvd x} = {}" by auto
  show ?case unfolding e by simp
next
  case (step i)
  have "m * (((i + 1 - 1) div m) * ((i + 1 - 1) div m + 1) div 2) =
        m * (((i - 1) div m) * ((i - 1) div m + 1) div 2) + (if m dvd i then i else 0)"
    using closed_form_step [OF step.hyps assms(2)] by simp
  also have "\<dots> = (\<Sum>x | 0 < x \<and> x < i \<and> m dvd x. x) + (if m dvd i then i else 0)"
    by (simp only: step.IH)
  also have "\<dots> = (\<Sum>x | 0 < x \<and> x < i + 1 \<and> m dvd x. x)"
    by (rule sum_below_step [OF step.hyps, symmetric])
  finally show ?case .
qed

lemma sum_multiples_below_sum:
  assumes "1 \<le> n" and "1 \<le> m"
  shows "sum_multiples_below n m = Inr (\<Sum>x | 0 < x \<and> x < n \<and> m dvd x. x)"
  using assms by (simp only: sum_multiples_below_closed closed_form_sum)

lemma sum_3_or_5_split:
  fixes n :: int
  shows "(\<Sum>x | 0 < x \<and> x < n \<and> (3 dvd x \<or> 5 dvd x). x) =
         (\<Sum>x | 0 < x \<and> x < n \<and> 3 dvd x. x) + (\<Sum>x | 0 < x \<and> x < n \<and> 5 dvd x. x)
           - (\<Sum>x | 0 < x \<and> x < n \<and> 15 dvd x. x)"
proof -
  define A where "A = {x::int. 0 < x \<and> x < n \<and> 3 dvd x}"
  define B where "B = {x::int. 0 < x \<and> x < n \<and> 5 dvd x}"
  have fin: "finite A" "finite B"
    by (rule finite_subset [of _ "{0<..<n}"]; auto simp: A_def B_def)+
  have un: "{x::int. 0 < x \<and> x < n \<and> (3 dvd x \<or> 5 dvd x)} = A \<union> B"
    by (auto simp: A_def B_def)
  have "(3 dvd x \<and> 5 dvd x) = (15 dvd x)" for x :: int by presburger
  then have inter: "{x::int. 0 < x \<and> x < n \<and> 15 dvd x} = A \<inter> B"
    by (auto simp: A_def B_def)
  show ?thesis
    unfolding un inter A_def [symmetric] B_def [symmetric]
    using fin by (rule sum_Un)
qed

text \<open>
  Claim C10. For every \<open>n\<close> of at least 1, \<open>calculate_sum_3_or_5(n)\<close> returns the sum of
  the positive integers below \<open>n\<close> that 3 or 5 divides; for every \<open>m\<close> of at least 1,
  \<open>sum_multiples_below(n, m)\<close> returns the sum of the positive multiples of \<open>m\<close> below
  \<open>n\<close>, and it returns 0 whenever \<open>n <= m\<close>. Neither raises.
\<close>

theorem calculate_sum_3_or_5_correct:
  "1 \<le> n \<Longrightarrow>
   calculate_sum_3_or_5 n = Inr (\<Sum>x | 0 < x \<and> x < n \<and> (3 dvd x \<or> 5 dvd x). x) \<and>
   (1 \<le> m \<longrightarrow>
      sum_multiples_below n m = Inr (\<Sum>x | 0 < x \<and> x < n \<and> m dvd x. x) \<and>
      (n \<le> m \<longrightarrow> sum_multiples_below n m = Inr 0))"
proof (intro conjI impI)
  assume n: "1 \<le> n"
  show "calculate_sum_3_or_5 n = Inr (\<Sum>x | 0 < x \<and> x < n \<and> (3 dvd x \<or> 5 dvd x). x)"
    using n by (simp add: calculate_sum_3_or_5_def sum_multiples_below_sum sum_3_or_5_split)
  show "sum_multiples_below n m = Inr (\<Sum>x | 0 < x \<and> x < n \<and> m dvd x. x)" if "1 \<le> m"
    using n that by (rule sum_multiples_below_sum)
  show "sum_multiples_below n m = Inr 0" if "n \<le> m"
    using that by (simp add: sum_multiples_below_def)
qed

theorem calculate_sum_3_or_5_correct_witness:
  "(1::int) \<le> 10 \<and> (1::int) \<le> 3 \<and>
   calculate_sum_3_or_5 10 = Inr 23 \<and>
   (\<Sum>x | 0 < x \<and> x < 10 \<and> (3 dvd x \<or> 5 dvd x). x) = (23::int) \<and>
   sum_multiples_below 10 3 = Inr 18 \<and>
   (\<Sum>x | 0 < x \<and> x < 10 \<and> 3 dvd x. x) = (18::int)"
  using calculate_sum_3_or_5_correct [of 10 3]
  by (simp add: calculate_sum_3_or_5_def sum_multiples_below_def)

end
